theory Spec2Isabelle
  imports Main "HOL-Library.Sublist" "HOL-Library.Char_ord" "HOL-Library.List_Lexorder"
begin

section \<open>The C++ standard library, as far as the core uses it\<close>

subsection \<open>std::string\<close>

text \<open>
  \<^verbatim>\<open>s.find(pat)\<close> is the least index at which \<open>pat\<close> occurs in \<open>s\<close>; the value
  \<^verbatim>\<open>std::string::npos\<close> ("not found") is \<open>None\<close>.
\<close>

fun str_find :: "string \<Rightarrow> string \<Rightarrow> nat option" where
  "str_find [] pat = (if pat = [] then Some 0 else None)"
| "str_find (c # cs) pat =
     (if prefix pat (c # cs) then Some 0 else map_option Suc (str_find cs pat))"

datatype failure = Out_of_range

text \<open>
  \<^verbatim>\<open>s.replace(pos, len, str)\<close> throws \<^verbatim>\<open>std::out_of_range\<close> when \<open>pos > s.size()\<close>, and
  otherwise replaces the (at most) \<open>len\<close> characters from \<open>pos\<close> by \<open>str\<close>. The position is
  the result of a \<^verbatim>\<open>find\<close>: \<open>None\<close> is \<^verbatim>\<open>npos\<close>, the largest value of \<^verbatim>\<open>size_t\<close>, which
  exceeds the size of every string.
\<close>

definition str_replace :: "string \<Rightarrow> nat option \<Rightarrow> nat \<Rightarrow> string \<Rightarrow> failure + string" where
  "str_replace s pos len str =
     (case pos of
        None \<Rightarrow> Inl Out_of_range
      | Some p \<Rightarrow>
          if length s < p then Inl Out_of_range
          else Inr (take p s @ str @ drop (p + len) s))"

subsection \<open>std::map from strings to strings\<close>

text \<open>
  A \<^verbatim>\<open>std::map<std::string, std::string>\<close> is kept as the list of its entries in the order
  of iteration, which is the ascending order of the keys (bytes compared as unsigned,
  a proper prefix first). \<^verbatim>\<open>m[k] = v\<close> overwrites the entry of \<open>k\<close> or inserts a new one
  at its place.
\<close>

type_synonym std_map = "(string \<times> string) list"

fun map_assign :: "string \<Rightarrow> string \<Rightarrow> std_map \<Rightarrow> std_map" where
  "map_assign k v [] = [(k, v)]"
| "map_assign k v ((k', v') # m) =
     (if k = k' then (k, v) # m
      else if k < k' then (k, v) # (k', v') # m
      else (k', v') # map_assign k v m)"

subsection \<open>tbb::parallel_for_each\<close>

text \<open>
  Every job of the vector is handed to the body once, and the call returns when all
  bodies have returned. A body only writes the job it was handed, so the vector after the
  call does not depend on the schedule. The body gets the position of its job as well,
  as the name of the transfer it makes.
\<close>

definition parallel_for_each :: "(nat \<Rightarrow> 'j \<Rightarrow> 'j) \<Rightarrow> 'j list \<Rightarrow> 'j list" where
  "parallel_for_each body jobs = map (\<lambda>(i, job). body i job) (enumerate 0 jobs)"

section \<open>The fetch worker and the dispatcher\<close>

text \<open>
  What libcurl does for one GET transfer of a URL: \<^verbatim>\<open>curl_easy_init\<close> returns no handle, or
  \<^verbatim>\<open>curl_easy_perform\<close> returns \<^verbatim>\<open>CURLE_OK\<close> with the body written to the buffer, or it
  returns another code, of which \<^verbatim>\<open>curl_easy_strerror\<close> is the text.
\<close>

datatype curl_transfer = Init_failed | Perform_ok string | Perform_failed string

record ScrapeJob =
  url :: string
  result_html :: string

definition scrape_url :: "(string \<Rightarrow> curl_transfer) \<Rightarrow> ScrapeJob \<Rightarrow> ScrapeJob" where
  "scrape_url curl job =
     (case curl (ScrapeJob.url job) of
        Perform_ok readBuffer \<Rightarrow> job\<lparr>result_html := readBuffer\<rparr>
      | Perform_failed strerror \<Rightarrow> job\<lparr>result_html := ''CURL_ERROR: '' @ strerror\<rparr>
      | Init_failed \<Rightarrow> job\<lparr>result_html := ''CURL_INIT_ERROR''\<rparr>)"

text \<open>
  The network is a function from the position of a job and its URL to what libcurl does
  for that transfer: two jobs with the same URL may fare differently.
\<close>

definition parallel_scrape :: "(nat \<Rightarrow> string \<Rightarrow> curl_transfer) \<Rightarrow> string list \<Rightarrow> std_map" where
  "parallel_scrape net urls =
     (let jobs = map (\<lambda>u. \<lparr>ScrapeJob.url = u, result_html = ''''\<rparr>) urls;
          jobs = parallel_for_each (\<lambda>i. scrape_url (net i)) jobs
      in fold (\<lambda>job results. map_assign (ScrapeJob.url job) (result_html job) results) jobs [])"

section \<open>The existence probe\<close>

text \<open>
  What libcurl does for one header-only transfer: no handle, \<^verbatim>\<open>CURLE_OK\<close> with the
  response code, or another code.
\<close>

datatype head_transfer = Head_init_failed | Head_ok int | Head_failed

record SherlockJob =
  site_name :: string
  url :: string
  found :: bool

definition check_sherlock_url :: "(string \<Rightarrow> head_transfer) \<Rightarrow> SherlockJob \<Rightarrow> SherlockJob" where
  "check_sherlock_url curl job =
     (case curl (SherlockJob.url job) of
        Head_ok http_code \<Rightarrow>
          (if http_code = 200 then job\<lparr>found := True\<rparr> else job\<lparr>found := False\<rparr>)
      | Head_failed \<Rightarrow> job\<lparr>found := False\<rparr>
      | Head_init_failed \<Rightarrow> job\<lparr>found := False\<rparr>)"

text \<open>
  The loop that builds the job list. The exception of \<^verbatim>\<open>replace\<close> is not caught: it ends
  the loop and the call.
\<close>

fun sherlock_jobs :: "string list \<Rightarrow> string \<Rightarrow> failure + SherlockJob list" where
  "sherlock_jobs [] username = Inr []"
| "sherlock_jobs (site_template # rest) username =
     (case str_replace site_template (str_find site_template ''{username}'') 10 username of
        Inl e \<Rightarrow> Inl e
      | Inr u \<Rightarrow>
          (case sherlock_jobs rest username of
             Inl e \<Rightarrow> Inl e
           | Inr jobs \<Rightarrow> Inr (\<lparr>site_name = site_template, url = u, found = False\<rparr> # jobs)))"

text \<open>
  The list \<open>sites_to_check\<close> is a parameter: the lines that declare it are not part of the
  sources at hand.
\<close>

definition parallel_sherlock ::
  "(nat \<Rightarrow> string \<Rightarrow> head_transfer) \<Rightarrow> string list \<Rightarrow> string \<Rightarrow> failure + string list" where
  "parallel_sherlock net sites_to_check username =
     (case sherlock_jobs sites_to_check username of
        Inl e \<Rightarrow> Inl e
      | Inr jobs \<Rightarrow>
          Inr (map SherlockJob.url
                 (filter found (parallel_for_each (\<lambda>i. check_sherlock_url (net i)) jobs))))"

section \<open>Harvesting\<close>

subsection \<open>std::regex and std::sregex_iterator\<close>

text \<open>
  The patterns of this program are sequences of one-character atoms, each with a greedy
  quantifier: a literal character, the wildcard \<^verbatim>\<open>.\<close> (every character but a line
  terminator) or a bracket expression, given by its ranges (a single character \<open>c\<close> is
  the range from \<open>c\<close> to \<open>c\<close>). A piece \<open>(a, lo, hi)\<close> is the atom \<open>a\<close> repeated at least
  \<open>lo\<close> and at most \<open>hi\<close> times, without upper bound when \<open>hi\<close> is \<open>None\<close>. The one pair of
  parentheses around the subdomain pattern captures only, and no capture is read.
\<close>

datatype atom = Lit char | Any_char | Bracket "(char \<times> char) list"

fun atom_accepts :: "atom \<Rightarrow> char \<Rightarrow> bool" where
  "atom_accepts (Lit c) x = (x = c)"
| "atom_accepts Any_char x = (x \<noteq> CHR 0x0A \<and> x \<noteq> CHR 0x0D)"
| "atom_accepts (Bracket ranges) x = list_ex (\<lambda>(lo, hi). lo \<le> x \<and> x \<le> hi) ranges"

type_synonym piece = "atom \<times> nat \<times> nat option"
type_synonym regex = "piece list"

fun first_some :: "'a option list \<Rightarrow> 'a option" where
  "first_some [] = None"
| "first_some (None # xs) = first_some xs"
| "first_some (Some x # xs) = Some x"

text \<open>
  The backtracking matcher of the ECMAScript grammar, at the start of \<open>s\<close>: a greedy piece
  first takes as many characters as it can, and gives them back one by one while the rest
  of the pattern fails. \<open>n\<close> is the number of characters matched so far; the result is the
  length of the match. Under \<^verbatim>\<open>match_not_null\<close> an empty match is refused.
\<close>

fun regex_match_at :: "bool \<Rightarrow> nat \<Rightarrow> regex \<Rightarrow> string \<Rightarrow> nat option" where
  "regex_match_at not_null n [] s = (if not_null \<and> n = 0 then None else Some n)"
| "regex_match_at not_null n ((a, lo, hi) # ps) s =
     (let run = length (takeWhile (atom_accepts a) s);
          top = (case hi of None \<Rightarrow> run | Some h \<Rightarrow> min h run)
      in first_some
           (map (\<lambda>k. regex_match_at not_null (n + k) ps (drop k s)) (rev [lo..<Suc top])))"

text \<open>
  \<^verbatim>\<open>regex_search\<close>: the match at the leftmost position that has one, as the pair of its
  offset in \<open>s\<close> and its length.
\<close>

fun regex_search :: "regex \<Rightarrow> string \<Rightarrow> (nat \<times> nat) option" where
  "regex_search r [] = map_option (\<lambda>n. (0, n)) (regex_match_at False 0 r [])"
| "regex_search r (c # cs) =
     (case regex_match_at False 0 r (c # cs) of
        Some n \<Rightarrow> Some (0, n)
      | None \<Rightarrow> map_option (\<lambda>(i, n). (Suc i, n)) (regex_search r cs))"

text \<open>
  The texts of the matches that a \<^verbatim>\<open>std::sregex_iterator\<close> over \<open>s\<close> yields until it
  equals the end iterator. After a match that is not empty the next search starts where
  the match ended. After an empty match at the end of the text the iterator is at its
  end; elsewhere it first looks for a match that is not empty at the same position, and
  then searches from the next position.
\<close>

function sregex_matches :: "regex \<Rightarrow> string \<Rightarrow> string list" where
  "sregex_matches r s =
     (case regex_search r s of
        None \<Rightarrow> []
      | Some (i, n) \<Rightarrow>
          (let m = take n (drop i s); rest = drop (i + n) s
           in if m \<noteq> [] then m # sregex_matches r rest
              else m #
                (case rest of
                   [] \<Rightarrow> []
                 | c # cs \<Rightarrow>
                     (case regex_match_at True 0 r rest of
                        Some k \<Rightarrow> take k rest # sregex_matches r (drop k rest)
                      | None \<Rightarrow> sregex_matches r cs))))"
  by pat_completeness auto
termination
proof (relation "measure (\<lambda>(r, s). length s)")
  have pick: "\<And>xs (k::nat). first_some xs = Some k \<Longrightarrow> Some k \<in> set xs"
  proof -
    fix xs :: "nat option list" and k
    show "first_some xs = Some k \<Longrightarrow> Some k \<in> set xs"
      by (induction xs rule: first_some.induct) auto
  qed
  have grows: "\<And>b n r s k. regex_match_at b n r s = Some k \<Longrightarrow> n \<le> k \<and> (b \<longrightarrow> 0 < k)"
  proof -
    fix b n r s k
    show "regex_match_at b n r s = Some k \<Longrightarrow> n \<le> k \<and> (b \<longrightarrow> 0 < k)"
    proof (induction r arbitrary: n s)
      case Nil
      then show ?case by (auto split: if_splits)
    next
      case (Cons p ps)
      obtain a lo hi where p: "p = (a, lo, hi)" by (cases p)
      from Cons.prems pick obtain j where "regex_match_at b (n + j) ps (drop j s) = Some k"
        unfolding p by (fastforce simp: Let_def)
      from Cons.IH [OF this] show ?case by simp
    qed
  qed
  fix r :: regex and s :: string and x i n m rest c cs k
  assume found: "regex_search r s = Some x" "(i, n) = x"
    and m: "m = take n (drop i s)" and rest: "rest = drop (i + n) s"
  {
    assume "m \<noteq> []"
    with m rest show "((r, rest), (r, s)) \<in> measure (\<lambda>(r, s). length s)" by auto
  }
  assume "\<not> m \<noteq> []" and cons: "rest = c # cs"
  from rest have short: "length rest \<le> length s" by simp
  {
    assume "regex_match_at True 0 r rest = Some k"
    from grows [OF this] have "0 < k" by simp
    with cons short show "((r, drop k rest), (r, s)) \<in> measure (\<lambda>(r, s). length s)" by simp
  }
  {
    assume "regex_match_at True 0 r rest = None"
    from cons short show "((r, cs), (r, s)) \<in> measure (\<lambda>(r, s). length s)" by simp
  }
qed simp

declare sregex_matches.simps [simp del]

subsection \<open>parallel_harvester\<close>

record HarvesterResults =
  emails :: "string list"
  subdomains :: "string list"

text \<open>The three queries; \<open>CHR 0x22\<close> is the double quote.\<close>

definition dorks :: "string \<Rightarrow> string list" where
  "dorks domain =
     [''site:google.com '' @ [CHR 0x22] @ ''@'' @ domain @ [CHR 0x22],
      [CHR 0x22] @ ''@'' @ domain @ [CHR 0x22],
      ''site:*.'' @ domain]"

definition urls_to_scrape :: "string \<Rightarrow> string list" where
  "urls_to_scrape domain =
     map (\<lambda>dork. ''https://www.google.com/search?q='' @ dork @ ''&num=50'') (dorks domain)"

text \<open>
  The pattern \<^verbatim>\<open>[a-zA-Z0-9._%+-]+@[a-zA-Z0-9.-]+\.[a-zA-Z]{2,}\<close>.
\<close>

definition email_regex :: regex where
  "email_regex =
     [(Bracket [(CHR ''a'', CHR ''z''), (CHR ''A'', CHR ''Z''), (CHR ''0'', CHR ''9''),
                (CHR ''.'', CHR ''.''), (CHR ''_'', CHR ''_''), (CHR ''%'', CHR ''%''),
                (CHR ''+'', CHR ''+''), (CHR ''-'', CHR ''-'')], 1, None),
      (Lit CHR ''@'', 1, Some 1),
      (Bracket [(CHR ''a'', CHR ''z''), (CHR ''A'', CHR ''Z''), (CHR ''0'', CHR ''9''),
                (CHR ''.'', CHR ''.''), (CHR ''-'', CHR ''-'')], 1, None),
      (Lit CHR ''.'', 1, Some 1),
      (Bracket [(CHR ''a'', CHR ''z''), (CHR ''A'', CHR ''Z'')], 2, None)]"

text \<open>
  The domain is appended to the pattern text as it is, so the regex compiler reads it as
  a pattern: a dot is the wildcard. Of the other characters only those that the grammar
  reads as themselves are covered here; on a domain with one of
  \<^verbatim>\<open>^ $ \ * + ? ( ) [ ] { } |\<close> the result is \<open>None\<close>, which says nothing about the program
  (the constructor of \<^verbatim>\<open>std::regex\<close> throws on some of these patterns and builds a
  pattern with alternatives, groups or longer repetitions on others).
\<close>

definition pattern_char :: "char \<Rightarrow> piece option" where
  "pattern_char c =
     (if c = CHR ''.'' then Some (Any_char, 1, Some 1)
      else if c \<in> set [CHR ''^'', CHR ''$'', CHR 0x5C, CHR ''*'', CHR ''+'', CHR ''?'', CHR ''('',
                        CHR '')'', CHR ''['', CHR '']'', CHR ''{'', CHR ''}'', CHR ''|'']
      then None
      else Some (Lit c, 1, Some 1))"

text \<open>
  The pattern \<^verbatim>\<open>([a-zA-Z0-9.-]+\.\<close> followed by the domain and \<^verbatim>\<open>)\<close>.
\<close>

definition subdomain_regex :: "string \<Rightarrow> regex option" where
  "subdomain_regex domain =
     map_option
       (\<lambda>ps. [(Bracket [(CHR ''a'', CHR ''z''), (CHR ''A'', CHR ''Z''), (CHR ''0'', CHR ''9''),
                         (CHR ''.'', CHR ''.''), (CHR ''-'', CHR ''-'')], 1, None),
               (Lit CHR ''.'', 1, Some 1)] @ ps)
       (those (map pattern_char domain))"

text \<open>
  The body of the loop over the entries of the map: one entry and the results so far.
\<close>

definition scan_html :: "string \<Rightarrow> regex \<Rightarrow> string \<times> string \<Rightarrow> HarvesterResults \<Rightarrow> HarvesterResults" where
  "scan_html domain sub_regex pair final_results =
     (let html = snd pair in
      if str_find html ''CURL_ERROR'' \<noteq> None then final_results
      else
        let final_results = final_results
              \<lparr>emails := emails final_results @
                 filter (\<lambda>email. str_find email domain \<noteq> None) (sregex_matches email_regex html)\<rparr>
        in final_results
             \<lparr>subdomains := subdomains final_results @ sregex_matches sub_regex html\<rparr>)"

definition parallel_harvester ::
  "(nat \<Rightarrow> string \<Rightarrow> curl_transfer) \<Rightarrow> string \<Rightarrow> HarvesterResults option" where
  "parallel_harvester net domain =
     (let scraped_html_map = parallel_scrape net (urls_to_scrape domain) in
      case subdomain_regex domain of
        None \<Rightarrow> None
      | Some sub_regex \<Rightarrow>
          Some (fold (scan_html domain sub_regex) scraped_html_map \<lparr>emails = [], subdomains = []\<rparr>))"

subsection \<open>The spec's "URL-encoded"\<close>

text \<open>
  The spec says that each query is URL-encoded into its URL. Read as weakly as possible,
  a URL-encoded text holds only the characters that RFC 3986 allows in a URI: letters,
  digits, the marks \<^verbatim>\<open>-._~\<close>, the delimiters \<^verbatim>\<open>:/?#[]@!$&'()*+,;=\<close> and the percent sign of
  an escape. \<open>CHR 0x27\<close> is the apostrophe.
\<close>

definition uri_char :: "char \<Rightarrow> bool" where
  "uri_char c =
     ((CHR ''a'' \<le> c \<and> c \<le> CHR ''z'') \<or> (CHR ''A'' \<le> c \<and> c \<le> CHR ''Z'') \<or>
      (CHR ''0'' \<le> c \<and> c \<le> CHR ''9'') \<or>
      c \<in> set ''-._~:/?#[]@!$&()*+,;=%'' \<or> c = CHR 0x27)"

definition url_encoded :: "string \<Rightarrow> bool" where
  "url_encoded s = list_all uri_char s"

section \<open>Facts about the library model\<close>

subsection \<open>find\<close>

lemma str_find_None_iff: "str_find s pat = None \<longleftrightarrow> \<not> sublist pat s"
  by (induction s) (auto simp: sublist_Cons_right)

lemma str_find_Some:
  "str_find s pat = Some i \<Longrightarrow> s = take i s @ pat @ drop (i + length pat) s"
proof (induction s arbitrary: i)
  case Nil
  then show ?case by (auto split: if_splits)
next
  case (Cons c cs)
  show ?case
  proof (cases "prefix pat (c # cs)")
    case True
    with Cons.prems have "i = 0" by simp
    with True show ?thesis by (auto simp: prefix_def)
  next
    case False
    with Cons.prems obtain j where j: "str_find cs pat = Some j" "i = Suc j" by auto
    from Cons.IH [OF j(1)] j(2) show ?thesis by simp
  qed
qed

subsection \<open>Assignment to a map entry\<close>

lemma map_of_map_assign: "map_of (map_assign k v m) = (map_of m)(k \<mapsto> v)"
  by (induction m) (auto simp: fun_eq_iff)

lemma keys_map_assign: "set (map fst (map_assign k v m)) = insert k (set (map fst m))"
proof (induction m)
  case Nil
  then show ?case by simp
next
  case (Cons e m)
  obtain k' v' where e: "e = (k', v')" by (cases e)
  have "set (map fst ((k', v') # map_assign k v m)) = insert k (set (map fst ((k', v') # m)))"
    using Cons.IH by (simp add: insert_commute)
  then show ?case unfolding e by simp
qed

text \<open>The keys stay in strictly ascending order, so no key occurs twice.\<close>

lemma sorted_map_assign:
  "sorted_wrt (<) (map fst m) \<Longrightarrow> sorted_wrt (<) (map fst (map_assign k v m))"
proof (induction m)
  case Nil
  then show ?case by simp
next
  case (Cons e m)
  obtain k' v' where e: "e = (k', v')" by (cases e)
  from Cons show ?case
    unfolding e using keys_map_assign [of k v m] by (auto simp del: set_map)
qed

text \<open>A loop of assignments: the last assignment to a key is the one that stays.\<close>

lemma fold_map_assign:
  "map_of (fold (\<lambda>j. map_assign (f j) (g j)) js m) =
   map_of m ++ map_of (rev (map (\<lambda>j. (f j, g j)) js))"
  by (induction js arbitrary: m)
    (auto simp: map_of_map_assign fun_eq_iff map_add_def split: option.splits)

lemma keys_fold_map_assign:
  "set (map fst (fold (\<lambda>j. map_assign (f j) (g j)) js m)) = set (map fst m) \<union> f ` set js"
  by (induction js arbitrary: m) (auto simp: keys_map_assign simp del: set_map)

lemma sorted_fold_map_assign:
  "sorted_wrt (<) (map fst m) \<Longrightarrow>
   sorted_wrt (<) (map fst (fold (\<lambda>j. map_assign (f j) (g j)) js m))"
  by (induction js arbitrary: m) (auto simp: sorted_map_assign)

lemma last_write:
  "i < n \<Longrightarrow> f i = u \<Longrightarrow> (\<forall>j. i < j \<and> j < n \<longrightarrow> f j \<noteq> u) \<Longrightarrow>
   map_of (rev (map (\<lambda>i. (f i, g i)) [0..<n])) u = Some (g i)"
proof (induction n)
  case 0
  then show ?case by simp
next
  case (Suc n)
  show ?case
  proof (cases "i = n")
    case True
    with Suc.prems show ?thesis by simp
  next
    case False
    with Suc.prems have i: "i < n" and n: "f n \<noteq> u" by auto
    from Suc.prems have "\<forall>j. i < j \<and> j < n \<longrightarrow> f j \<noteq> u" by simp
    from Suc.IH [OF i Suc.prems(2) this] n show ?thesis by auto
  qed
qed

lemma last_occurrence:
  assumes "u \<in> set urls"
  shows "\<exists>i<length urls. urls ! i = u \<and> (\<forall>j. i < j \<and> j < length urls \<longrightarrow> urls ! j \<noteq> u)"
proof -
  let ?S = "{i. i < length urls \<and> urls ! i = u}"
  have fin: "finite ?S" by simp
  from assms have ne: "?S \<noteq> {}" by (auto simp: in_set_conv_nth)
  from Max_in [OF fin ne] have m: "Max ?S < length urls" "urls ! Max ?S = u" by auto
  have "\<forall>j. Max ?S < j \<and> j < length urls \<longrightarrow> urls ! j \<noteq> u"
  proof (intro allI impI notI)
    fix j assume "Max ?S < j \<and> j < length urls" and "urls ! j = u"
    then have "j \<in> ?S" by simp
    from Max_ge [OF fin this] \<open>Max ?S < j \<and> j < length urls\<close> show False by simp
  qed
  with m show ?thesis by blast
qed

lemma one_entry:
  "distinct (map fst m) \<Longrightarrow> k \<in> set (map fst m) \<Longrightarrow> length (filter (\<lambda>e. fst e = k) m) = 1"
  by (induction m) (auto simp: image_iff filter_empty_conv)

subsection \<open>parallel_for_each\<close>

lemma parallel_for_each_nth:
  "parallel_for_each body jobs = map (\<lambda>i. body i (jobs ! i)) [0..<length jobs]"
  by (auto simp: parallel_for_each_def enumerate_eq_zip intro!: nth_equalityI)

section \<open>The dispatcher: parallel_scrape\<close>

lemma scrape_url_url: "ScrapeJob.url (scrape_url curl job) = ScrapeJob.url job"
  by (simp add: scrape_url_def split: curl_transfer.splits)

text \<open>
  The call as one loop over the positions of the input: job \<open>i\<close> is fetched as transfer
  \<open>i\<close>, and its result is assigned to the entry of its URL.
\<close>

lemma parallel_scrape_fold:
  "parallel_scrape net urls =
     fold (\<lambda>i. map_assign (urls ! i)
                  (result_html (scrape_url (net i) \<lparr>ScrapeJob.url = urls ! i, result_html = ''''\<rparr>)))
       [0..<length urls] []"
  unfolding parallel_scrape_def Let_def parallel_for_each_nth fold_map
  by (rule fold_cong) (auto simp: scrape_url_url)

lemma sorted_parallel_scrape: "sorted_wrt (<) (map fst (parallel_scrape net urls))"
  unfolding parallel_scrape_fold by (rule sorted_fold_map_assign) simp

lemma distinct_parallel_scrape: "distinct (map fst (parallel_scrape net urls))"
  using sorted_parallel_scrape [of net urls] strict_sorted_iff by blast

lemma keys_parallel_scrape: "set (map fst (parallel_scrape net urls)) = set urls"
proof -
  have "(\<lambda>i. urls ! i) ` set [0..<length urls] = set urls"
    by (auto simp: in_set_conv_nth)
  then show ?thesis
    unfolding parallel_scrape_fold keys_fold_map_assign by simp
qed

lemma length_parallel_scrape: "length (parallel_scrape net urls) = card (set urls)"
  using distinct_card [OF distinct_parallel_scrape [of net urls]]
  by (simp add: keys_parallel_scrape del: set_map)

lemma lookup_parallel_scrape:
  assumes "i < length urls" and "\<forall>j. i < j \<and> j < length urls \<longrightarrow> urls ! j \<noteq> urls ! i"
  shows "map_of (parallel_scrape net urls) (urls ! i) =
         Some (result_html (scrape_url (net i) \<lparr>ScrapeJob.url = urls ! i, result_html = ''''\<rparr>))"
  unfolding parallel_scrape_fold fold_map_assign
  using last_write [of i "length urls" "\<lambda>i. urls ! i" "urls ! i", OF assms(1) refl assms(2)]
  by (simp add: map_add_def)

text \<open>
  Claim C2. When the URLs of the input are pairwise distinct, the map that
  \<open>parallel_scrape\<close> returns has as many entries as the input has URLs, whatever the
  transfers do: each job, failed or not, has its entry, which holds the result of that
  job's own fetch.
\<close>

theorem parallel_scrape_distinct_complete:
  assumes "distinct urls"
  shows "length (parallel_scrape net urls) = length urls \<and>
         (\<forall>i<length urls.
            map_of (parallel_scrape net urls) (urls ! i) =
            Some (result_html (scrape_url (net i) \<lparr>ScrapeJob.url = urls ! i, result_html = ''''\<rparr>)))"
proof (intro conjI allI impI)
  from assms show "length (parallel_scrape net urls) = length urls"
    by (simp add: length_parallel_scrape distinct_card)
next
  fix i assume i: "i < length urls"
  with assms have "\<forall>j. i < j \<and> j < length urls \<longrightarrow> urls ! j \<noteq> urls ! i"
    by (auto simp: nth_eq_iff_index_eq)
  from lookup_parallel_scrape [OF i this]
  show "map_of (parallel_scrape net urls) (urls ! i) =
        Some (result_html (scrape_url (net i) \<lparr>ScrapeJob.url = urls ! i, result_html = ''''\<rparr>))" .
qed

text \<open>Two URLs, the first transfer fails and the second succeeds: two entries.\<close>

theorem parallel_scrape_distinct_complete_witness:
  "distinct [''b'', ''a''] \<and>
   length (parallel_scrape
             (\<lambda>i u. if i = 0 then Perform_failed ''Timeout was reached'' else Perform_ok ''page'')
             [''b'', ''a'']) = 2 \<and>
   map_of (parallel_scrape
             (\<lambda>i u. if i = 0 then Perform_failed ''Timeout was reached'' else Perform_ok ''page'')
             [''b'', ''a'']) ''b'' = Some ''CURL_ERROR: Timeout was reached'' \<and>
   map_of (parallel_scrape
             (\<lambda>i u. if i = 0 then Perform_failed ''Timeout was reached'' else Perform_ok ''page'')
             [''b'', ''a'']) ''a'' = Some ''page''"
proof -
  let ?net = "\<lambda>(i::nat) (u::string).
    if i = 0 then Perform_failed ''Timeout was reached'' else Perform_ok ''page''"
  have d: "distinct [''b'', ''a'']" by simp
  note t = parallel_scrape_distinct_complete [OF d, of ?net]
  from t have len: "length (parallel_scrape ?net [''b'', ''a'']) = 2" by simp
  from t have each: "\<And>i. i < length [''b'', ''a''] \<Longrightarrow>
      map_of (parallel_scrape ?net [''b'', ''a'']) ([''b'', ''a''] ! i) =
      Some (result_html (scrape_url (?net i) \<lparr>ScrapeJob.url = [''b'', ''a''] ! i, result_html = ''''\<rparr>))"
    by blast
  from each [of 0]
  have b: "map_of (parallel_scrape ?net [''b'', ''a'']) ''b'' = Some ''CURL_ERROR: Timeout was reached''"
    by (simp add: scrape_url_def)
  from each [of 1] have a: "map_of (parallel_scrape ?net [''b'', ''a'']) ''a'' = Some ''page''"
    by (simp add: scrape_url_def)
  from d len b a show ?thesis by blast
qed

text \<open>
  Claim C8. A URL of the input, however often it occurs there, has exactly one entry in
  the map that \<open>parallel_scrape\<close> returns, and the value of the entry is the result of
  the fetch of one of the jobs with that URL.
\<close>

theorem parallel_scrape_duplicate_url:
  assumes "u \<in> set urls"
  shows "length (filter (\<lambda>e. fst e = u) (parallel_scrape net urls)) = 1 \<and>
         (\<exists>i<length urls. urls ! i = u \<and>
            map_of (parallel_scrape net urls) u =
            Some (result_html (scrape_url (net i) \<lparr>ScrapeJob.url = u, result_html = ''''\<rparr>)))"
proof
  from assms show "length (filter (\<lambda>e. fst e = u) (parallel_scrape net urls)) = 1"
    by (intro one_entry distinct_parallel_scrape) (simp add: keys_parallel_scrape del: set_map)
next
  from last_occurrence [OF assms] obtain i where
    i: "i < length urls" "urls ! i = u" "\<forall>j. i < j \<and> j < length urls \<longrightarrow> urls ! j \<noteq> u"
    by blast
  from lookup_parallel_scrape [of i urls net] i
  have "map_of (parallel_scrape net urls) u =
        Some (result_html (scrape_url (net i) \<lparr>ScrapeJob.url = u, result_html = ''''\<rparr>))"
    by simp
  with i show "\<exists>i<length urls. urls ! i = u \<and>
            map_of (parallel_scrape net urls) u =
            Some (result_html (scrape_url (net i) \<lparr>ScrapeJob.url = u, result_html = ''''\<rparr>))"
    by blast
qed

text \<open>The URL \<open>b\<close> twice, with different bodies: one entry, with one of the two.\<close>

theorem parallel_scrape_duplicate_url_witness:
  "''b'' \<in> set [''b'', ''a'', ''b''] \<and>
   length (filter (\<lambda>e. fst e = ''b'')
     (parallel_scrape (\<lambda>i u. if i = 0 then Perform_ok ''first'' else Perform_ok ''later'')
        [''b'', ''a'', ''b''])) = 1 \<and>
   map_of (parallel_scrape (\<lambda>i u. if i = 0 then Perform_ok ''first'' else Perform_ok ''later'')
        [''b'', ''a'', ''b'']) ''b''
     \<in> {Some ''first'', Some ''later''}"
proof -
  let ?net = "\<lambda>(i::nat) (u::string). if i = 0 then Perform_ok ''first'' else Perform_ok ''later''"
  have m: "''b'' \<in> set [''b'', ''a'', ''b'']" by simp
  note t = parallel_scrape_duplicate_url [OF m, of ?net]
  from t have one:
    "length (filter (\<lambda>e. fst e = ''b'') (parallel_scrape ?net [''b'', ''a'', ''b''])) = 1"
    by blast
  from t obtain i where "map_of (parallel_scrape ?net [''b'', ''a'', ''b'']) ''b'' =
      Some (result_html (scrape_url (?net i) \<lparr>ScrapeJob.url = ''b'', result_html = ''''\<rparr>))"
    by blast
  then have "map_of (parallel_scrape ?net [''b'', ''a'', ''b'']) ''b'' \<in> {Some ''first'', Some ''later''}"
    by (cases "i = 0") (simp_all add: scrape_url_def)
  with m one show ?thesis by blast
qed

section \<open>The existence probe: parallel_sherlock\<close>

lemma check_sherlock_url_url:
  "SherlockJob.url (check_sherlock_url curl job) = SherlockJob.url job"
  by (simp add: check_sherlock_url_def split: head_transfer.splits)

lemma check_sherlock_url_found:
  "found (check_sherlock_url curl job) \<longleftrightarrow> curl (SherlockJob.url job) = Head_ok 200"
  by (simp add: check_sherlock_url_def split: head_transfer.splits)

text \<open>
  The job list is built exactly when every template holds the placeholder; job \<open>i\<close> then
  carries template \<open>i\<close> and the URL in which the first placeholder is the user name.
\<close>

lemma sherlock_jobs_Inl_iff:
  "sherlock_jobs sites user = Inl Out_of_range \<longleftrightarrow> (\<exists>t\<in>set sites. \<not> sublist ''{username}'' t)"
proof (induction sites)
  case Nil
  then show ?case by simp
next
  case (Cons t ts)
  show ?case
  proof (cases "str_find t ''{username}''")
    case None
    then show ?thesis by (simp add: str_replace_def str_find_None_iff [symmetric])
  next
    case (Some p)
    from str_find_Some [OF Some]
    have "length t = length (take p t @ ''{username}'' @ drop (p + length ''{username}'') t)"
      by simp
    then have "p \<le> length t" by simp
    moreover from Some have "sublist ''{username}'' t"
      using str_find_None_iff [of t "''{username}''"] by simp
    ultimately show ?thesis using Some Cons.IH
      by (cases "sherlock_jobs ts user") (auto simp: str_replace_def)
  qed
qed

lemma sherlock_jobs_Inr:
  "sherlock_jobs sites user = Inr jobs \<Longrightarrow>
   length jobs = length sites \<and>
   (\<forall>i<length sites. \<exists>p. str_find (sites ! i) ''{username}'' = Some p \<and>
      jobs ! i = \<lparr>site_name = sites ! i,
                  url = take p (sites ! i) @ user @ drop (p + 10) (sites ! i), found = False\<rparr>)"
proof (induction sites arbitrary: jobs)
  case Nil
  then show ?case by simp
next
  case (Cons t ts)
  from Cons.prems obtain p u js where
    p: "str_find t ''{username}'' = Some p" and u: "u = take p t @ user @ drop (p + 10) t"
    and js: "sherlock_jobs ts user = Inr js"
    and jobs: "jobs = \<lparr>site_name = t, url = u, found = False\<rparr> # js"
    by (auto simp: str_replace_def split: option.splits if_splits sum.splits)
  from Cons.IH [OF js] p u jobs show ?case
    by (auto simp: nth_Cons split: nat.splits)
qed

lemma parallel_sherlock_Inr:
  assumes "sherlock_jobs sites user = Inr jobs"
  shows "parallel_sherlock net sites user =
         Inr (map (\<lambda>i. SherlockJob.url (jobs ! i))
                (filter (\<lambda>i. net i (SherlockJob.url (jobs ! i)) = Head_ok 200) [0..<length jobs]))"
  using assms
  by (simp add: parallel_sherlock_def parallel_for_each_nth filter_map o_def
      check_sherlock_url_url check_sherlock_url_found)

lemma parallel_sherlock_throws_iff:
  "parallel_sherlock net sites user = Inl Out_of_range \<longleftrightarrow>
   (\<exists>t\<in>set sites. \<not> sublist ''{username}'' t)"
  using sherlock_jobs_Inl_iff [of sites user]
  by (auto simp: parallel_sherlock_def split: sum.splits)

text \<open>
  Claim C1 says that a template without the placeholder \<^verbatim>\<open>{username}\<close> is skipped or
  flagged and never makes the call throw. The code does not check the result of
  \<^verbatim>\<open>find\<close>: on the second template below \<^verbatim>\<open>replace\<close> is called at \<^verbatim>\<open>npos\<close> and throws
  \<^verbatim>\<open>std::out_of_range\<close>, and the call ends with that exception, whatever the network
  does, although the first template is well-formed.
\<close>

theorem parallel_sherlock_throws_without_placeholder:
  "parallel_sherlock net [''https://a.example/{username}'', ''https://b.example/profile''] ''alice''
     = Inl Out_of_range"
  by (simp add: parallel_sherlock_def str_replace_def)

lemma sherlock_jobs_built:
  assumes "\<forall>t\<in>set sites. sublist ''{username}'' t"
  shows "\<exists>jobs. sherlock_jobs sites user = Inr jobs"
proof (cases "sherlock_jobs sites user")
  case (Inl e)
  then have "sherlock_jobs sites user = Inl Out_of_range" by (cases e) simp
  with assms sherlock_jobs_Inl_iff [of sites user] show ?thesis by blast
next
  case (Inr jobs)
  then show ?thesis by blast
qed

text \<open>
  Claim C6. When every template of the site list holds the placeholder, the call
  returns, and it returns the URLs of exactly the jobs whose header-only transfer
  completed with response code 200, one per such job, where the URL of job \<open>i\<close> is
  template \<open>i\<close> with its first placeholder replaced by the user name. No job with another
  response code or with a failed transfer contributes, and the result is the same for
  any two networks that agree on which transfers end with 200, so it does not tell a 404
  from a timeout.
\<close>

theorem parallel_sherlock_exactly_status_200:
  assumes "\<forall>t\<in>set sites. sublist ''{username}'' t"
  shows "\<exists>(jobs :: SherlockJob list) rs.
           length jobs = length sites \<and>
           (\<forall>i<length sites. \<exists>p. str_find (sites ! i) ''{username}'' = Some p \<and>
              SherlockJob.url (jobs ! i) = take p (sites ! i) @ user @ drop (p + 10) (sites ! i)) \<and>
           parallel_sherlock net sites user = Inr rs \<and>
           (\<forall>u. u \<in> set rs \<longleftrightarrow>
                (\<exists>i<length jobs. SherlockJob.url (jobs ! i) = u \<and> net i u = Head_ok 200)) \<and>
           length rs = card {i. i < length jobs \<and> net i (SherlockJob.url (jobs ! i)) = Head_ok 200} \<and>
           (\<forall>net'. (\<forall>i<length jobs. (net' i (SherlockJob.url (jobs ! i)) = Head_ok 200) =
                                     (net i (SherlockJob.url (jobs ! i)) = Head_ok 200)) \<longrightarrow>
                   parallel_sherlock net' sites user = Inr rs)"
proof -
  from sherlock_jobs_built [OF assms] obtain jobs where jobs: "sherlock_jobs sites user = Inr jobs"
    by blast
  let ?ok = "\<lambda>n i. n i (SherlockJob.url (jobs ! i)) = Head_ok 200"
  let ?rs = "map (\<lambda>i. SherlockJob.url (jobs ! i)) (filter (?ok net) [0..<length jobs])"
  from sherlock_jobs_Inr [OF jobs] have len: "length jobs = length sites"
    and urls: "\<forall>i<length sites. \<exists>p. str_find (sites ! i) ''{username}'' = Some p \<and>
       SherlockJob.url (jobs ! i) = take p (sites ! i) @ user @ drop (p + 10) (sites ! i)"
    by auto
  have 1: "parallel_sherlock net sites user = Inr ?rs"
    by (rule parallel_sherlock_Inr [OF jobs])
  have 2: "\<forall>u. u \<in> set ?rs \<longleftrightarrow>
              (\<exists>i<length jobs. SherlockJob.url (jobs ! i) = u \<and> net i u = Head_ok 200)"
    by auto
  have d: "distinct (filter (?ok net) [0..<length jobs])" by simp
  have "length ?rs = length (filter (?ok net) [0..<length jobs])" by simp
  also have "\<dots> = card (set (filter (?ok net) [0..<length jobs]))"
    by (rule distinct_card [OF d, symmetric])
  also have "set (filter (?ok net) [0..<length jobs]) = {i. i < length jobs \<and> ?ok net i}"
    by auto
  finally have 3: "length ?rs = card {i. i < length jobs \<and> ?ok net i}" .
  have 4: "\<forall>net'. (\<forall>i<length jobs. ?ok net' i = ?ok net i) \<longrightarrow>
             parallel_sherlock net' sites user = Inr ?rs"
  proof (intro allI impI)
    fix net' assume same: "\<forall>i<length jobs. ?ok net' i = ?ok net i"
    then have "filter (?ok net') [0..<length jobs] = filter (?ok net) [0..<length jobs]"
      by (intro filter_cong) auto
    with parallel_sherlock_Inr [OF jobs, of net']
    show "parallel_sherlock net' sites user = Inr ?rs"
      by simp
  qed
  show ?thesis
    by (rule exI [of _ jobs], rule exI [of _ ?rs], intro conjI) (rule len urls 1 2 3 4)+
qed

text \<open>
  Two sites, the first answers 200: only its URL is returned, and the result is the
  same whether the second answers 404 or its transfer fails.
\<close>

theorem parallel_sherlock_exactly_status_200_witness:
  "list_all (sublist ''{username}'')
     [''https://a.example/{username}'', ''https://b.example/u/{username}/x''] \<and>
   parallel_sherlock (\<lambda>i u. if i = 0 then Head_ok 200 else Head_ok 404)
     [''https://a.example/{username}'', ''https://b.example/u/{username}/x''] ''alice'' =
     Inr [''https://a.example/alice''] \<and>
   (\<exists>rs. parallel_sherlock (\<lambda>i u. if i = 0 then Head_ok 200 else Head_ok 404)
            [''https://a.example/{username}'', ''https://b.example/u/{username}/x''] ''alice'' = Inr rs \<and>
          parallel_sherlock (\<lambda>i u. if i = 0 then Head_ok 200 else Head_failed)
            [''https://a.example/{username}'', ''https://b.example/u/{username}/x''] ''alice'' = Inr rs \<and>
          length rs = 1)"
proof -
  let ?sites = "[''https://a.example/{username}'', ''https://b.example/u/{username}/x'']"
  let ?net = "\<lambda>(i::nat) (u::string). if i = 0 then Head_ok 200 else Head_ok 404"
  let ?net' = "\<lambda>(i::nat) (u::string). if i = 0 then Head_ok 200 else Head_failed"
  have "sublist ''{username}'' ''https://a.example/{username}''"
    using str_find_None_iff [of "''https://a.example/{username}''" "''{username}''"] by simp
  moreover have "sublist ''{username}'' ''https://b.example/u/{username}/x''"
    using str_find_None_iff [of "''https://b.example/u/{username}/x''" "''{username}''"] by simp
  ultimately have wf: "\<forall>t\<in>set ?sites. sublist ''{username}'' t" by simp
  have v: "parallel_sherlock ?net ?sites ''alice'' = Inr [''https://a.example/alice'']"
    by (simp add: parallel_sherlock_def parallel_for_each_def check_sherlock_url_def str_replace_def)
  from parallel_sherlock_exactly_status_200 [OF wf, of "''alice''" ?net]
  obtain jobs :: "SherlockJob list" and rs where
    rs: "parallel_sherlock ?net ?sites ''alice'' = Inr rs"
    and same: "\<forall>net'. (\<forall>i<length jobs. (net' i (SherlockJob.url (jobs ! i)) = Head_ok 200) =
                                     (?net i (SherlockJob.url (jobs ! i)) = Head_ok 200)) \<longrightarrow>
                   parallel_sherlock net' ?sites ''alice'' = Inr rs"
    by (elim exE conjE)
  have rs': "parallel_sherlock ?net' ?sites ''alice'' = Inr rs"
    by (rule same [rule_format]) simp
  from rs [unfolded v] have "rs = [''https://a.example/alice'']" by simp
  then have l: "length rs = 1" by simp
  from wf have w: "list_all (sublist ''{username}'') ?sites" by (simp add: list_all_iff)
  from rs rs' l have "\<exists>rs. parallel_sherlock ?net ?sites ''alice'' = Inr rs \<and>
      parallel_sherlock ?net' ?sites ''alice'' = Inr rs \<and> length rs = 1"
    by (intro exI [of _ rs] conjI)
  with w v show ?thesis by (intro conjI)
qed

text \<open>
  Claim C10. When every template of the site list holds the placeholder, the URLs that
  \<open>parallel_sherlock\<close> returns stand in the order of the site list: job \<open>i\<close> belongs to
  template \<open>i\<close>, and the result lists the URLs of the jobs at a strictly ascending
  sequence of positions, so it is a subsequence of the URLs of all jobs.
\<close>

theorem parallel_sherlock_keeps_order:
  assumes "\<forall>t\<in>set sites. sublist ''{username}'' t"
  shows "\<exists>jobs. sherlock_jobs sites user = Inr jobs \<and> map site_name jobs = sites \<and>
         (\<exists>idx. sorted_wrt (<) idx \<and> set idx \<subseteq> {..<length sites} \<and>
            parallel_sherlock net sites user = Inr (map (\<lambda>i. SherlockJob.url (jobs ! i)) idx)) \<and>
         (\<exists>rs. parallel_sherlock net sites user = Inr rs \<and> subseq rs (map SherlockJob.url jobs))"
proof -
  from sherlock_jobs_built [OF assms] obtain jobs where jobs: "sherlock_jobs sites user = Inr jobs"
    by blast
  from sherlock_jobs_Inr [OF jobs] have len: "length jobs = length sites"
    and nth: "\<forall>i<length sites. site_name (jobs ! i) = sites ! i" by auto
  then have 1: "map site_name jobs = sites" by (auto intro: nth_equalityI)
  let ?idx = "filter (\<lambda>i. net i (SherlockJob.url (jobs ! i)) = Head_ok 200) [0..<length jobs]"
  have "sorted_wrt (<) ?idx" by (rule sorted_wrt_filter) simp
  moreover have "set ?idx \<subseteq> {..<length sites}" using len by auto
  ultimately have 2: "\<exists>idx. sorted_wrt (<) idx \<and> set idx \<subseteq> {..<length sites} \<and>
            parallel_sherlock net sites user = Inr (map (\<lambda>i. SherlockJob.url (jobs ! i)) idx)"
    using parallel_sherlock_Inr [OF jobs, of net] by blast
  have "subseq (map (\<lambda>i. SherlockJob.url (jobs ! i)) ?idx)
          (map (\<lambda>i. SherlockJob.url (jobs ! i)) [0..<length jobs])"
    by (intro subseq_map subseq_filter_left)
  also have "map (\<lambda>i. SherlockJob.url (jobs ! i)) [0..<length jobs] = map SherlockJob.url jobs"
    by (auto intro: nth_equalityI)
  finally have 3: "\<exists>rs. parallel_sherlock net sites user = Inr rs \<and>
      subseq rs (map SherlockJob.url jobs)"
    using parallel_sherlock_Inr [OF jobs, of net] by blast
  show ?thesis
    by (rule exI [of _ jobs], intro conjI) (rule jobs 1 2 3)+
qed

text \<open>Three sites, the second answers 404: the first and the third URL, in that order.\<close>

theorem parallel_sherlock_keeps_order_witness:
  "list_all (sublist ''{username}'')
     [''https://a.example/{username}'', ''https://b.example/{username}'',
      ''https://c.example/{username}''] \<and>
   parallel_sherlock (\<lambda>i u. if i = 1 then Head_ok 404 else Head_ok 200)
     [''https://a.example/{username}'', ''https://b.example/{username}'',
      ''https://c.example/{username}''] ''bob'' = Inr [''https://a.example/bob'', ''https://c.example/bob''] \<and>
   (\<exists>rs. parallel_sherlock (\<lambda>i u. if i = 1 then Head_ok 404 else Head_ok 200)
            [''https://a.example/{username}'', ''https://b.example/{username}'',
             ''https://c.example/{username}''] ''bob'' = Inr rs \<and>
          subseq rs [''https://a.example/bob'', ''https://b.example/bob'', ''https://c.example/bob''])"
proof -
  let ?sites = "[''https://a.example/{username}'', ''https://b.example/{username}'',
                 ''https://c.example/{username}'']"
  let ?jobs = "[\<lparr>site_name = ''https://a.example/{username}'', url = ''https://a.example/bob'', found = False\<rparr>,
          \<lparr>site_name = ''https://b.example/{username}'', url = ''https://b.example/bob'', found = False\<rparr>,
          \<lparr>site_name = ''https://c.example/{username}'', url = ''https://c.example/bob'', found = False\<rparr>]"
  let ?net = "\<lambda>(i::nat) (u::string). if i = 1 then Head_ok 404 else Head_ok 200"
  have "sublist ''{username}'' ''https://a.example/{username}''"
    using str_find_None_iff [of "''https://a.example/{username}''" "''{username}''"] by simp
  moreover have "sublist ''{username}'' ''https://b.example/{username}''"
    using str_find_None_iff [of "''https://b.example/{username}''" "''{username}''"] by simp
  moreover have "sublist ''{username}'' ''https://c.example/{username}''"
    using str_find_None_iff [of "''https://c.example/{username}''" "''{username}''"] by simp
  ultimately have wf: "\<forall>t\<in>set ?sites. sublist ''{username}'' t" by simp
  have j: "sherlock_jobs ?sites ''bob'' = Inr ?jobs"
    by (simp add: str_replace_def)
  have v: "parallel_sherlock ?net ?sites ''bob'' = Inr [''https://a.example/bob'', ''https://c.example/bob'']"
    by (simp add: parallel_sherlock_def parallel_for_each_def check_sherlock_url_def str_replace_def)
  from parallel_sherlock_keeps_order [OF wf, of "''bob''" ?net]
  obtain jobs where c: "sherlock_jobs ?sites ''bob'' = Inr jobs \<and> map site_name jobs = ?sites \<and>
         (\<exists>idx. sorted_wrt (<) idx \<and> set idx \<subseteq> {..<length ?sites} \<and>
            parallel_sherlock ?net ?sites ''bob'' = Inr (map (\<lambda>i. SherlockJob.url (jobs ! i)) idx)) \<and>
         (\<exists>rs. parallel_sherlock ?net ?sites ''bob'' = Inr rs \<and> subseq rs (map SherlockJob.url jobs))"
    by (rule exE)
  from c [THEN conjunct1] j have "jobs = ?jobs" by simp
  with c [THEN conjunct2, THEN conjunct2, THEN conjunct2]
  have "\<exists>rs. parallel_sherlock ?net ?sites ''bob'' = Inr rs \<and>
      subseq rs [''https://a.example/bob'', ''https://b.example/bob'', ''https://c.example/bob'']"
    by simp
  moreover from wf have "list_all (sublist ''{username}'') ?sites" by (simp add: list_all_iff)
  ultimately show ?thesis using v by blast
qed

section \<open>Harvesting: parallel_harvester\<close>

text \<open>The two branches of the loop body, with the tests of \<^verbatim>\<open>find\<close> read as containment.\<close>

lemma scan_html_skip:
  "sublist ''CURL_ERROR'' html \<Longrightarrow> scan_html domain r (k, html) acc = acc"
  using str_find_None_iff [of html "''CURL_ERROR''"] by (simp add: scan_html_def)

lemma scan_html_scan:
  "\<not> sublist ''CURL_ERROR'' html \<Longrightarrow>
   scan_html domain r (k, html) acc =
     \<lparr>emails = emails acc @
         filter (\<lambda>email. sublist domain email) (sregex_matches email_regex html),
      subdomains = subdomains acc @ sregex_matches r html\<rparr>"
  using str_find_None_iff [of html "''CURL_ERROR''"]
  by (simp add: scan_html_def Let_def str_find_None_iff)

lemma sublist_sentinel: "sublist ''CURL_ERROR'' (''CURL_ERROR: '' @ msg)"
proof -
  have "''CURL_ERROR: '' @ msg = [] @ ''CURL_ERROR'' @ ('': '' @ msg)" by simp
  then show ?thesis unfolding sublist_def by blast
qed

text \<open>
  Claim C3. When the transfer of a body fetch fails, the result of the job is the text
  \<^verbatim>\<open>CURL_ERROR: \<close> followed by the error text of libcurl; and an entry with such a result
  adds nothing to the harvest, wherever it stands among the entries: the loop over the
  map gives the same results as the loop over the map without it.
\<close>

theorem transport_failure_is_sentinel_and_skipped:
  assumes "curl (ScrapeJob.url job) = Perform_failed strerror"
  shows "result_html (scrape_url curl job) = ''CURL_ERROR: '' @ strerror \<and>
         scan_html domain r (k, result_html (scrape_url curl job)) acc = acc \<and>
         fold (scan_html domain r) (before @ (k, result_html (scrape_url curl job)) # after) acc =
         fold (scan_html domain r) (before @ after) acc"
proof -
  from assms have 1: "result_html (scrape_url curl job) = ''CURL_ERROR: '' @ strerror"
    by (simp add: scrape_url_def)
  have 2: "scan_html domain r (k, ''CURL_ERROR: '' @ strerror) acc' = acc'" for acc'
    by (rule scan_html_skip [OF sublist_sentinel])
  from 1 2 show ?thesis by simp
qed

text \<open>A timeout: the result is the sentinel text, and scanning it harvests nothing.\<close>

theorem transport_failure_is_sentinel_and_skipped_witness:
  "(\<lambda>u. if u = ''https://t.example/'' then Perform_failed ''Timeout was reached''
         else Perform_ok ''bob@example.com'')
     (ScrapeJob.url \<lparr>ScrapeJob.url = ''https://t.example/'', result_html = ''''\<rparr>) =
     Perform_failed ''Timeout was reached'' \<and>
   result_html (scrape_url
       (\<lambda>u. if u = ''https://t.example/'' then Perform_failed ''Timeout was reached''
            else Perform_ok ''bob@example.com'')
       \<lparr>ScrapeJob.url = ''https://t.example/'', result_html = ''''\<rparr>) =
     ''CURL_ERROR: Timeout was reached'' \<and>
   fold (scan_html ''example.com'' email_regex)
     [(''https://t.example/'', ''CURL_ERROR: Timeout was reached'')]
     \<lparr>emails = [], subdomains = []\<rparr> =
   \<lparr>emails = [], subdomains = []\<rparr>"
proof -
  let ?curl = "\<lambda>u. if u = ''https://t.example/'' then Perform_failed ''Timeout was reached''
                   else Perform_ok ''bob@example.com''"
  let ?job = "\<lparr>ScrapeJob.url = ''https://t.example/'', result_html = ''''\<rparr>"
  have h: "?curl (ScrapeJob.url ?job) = Perform_failed ''Timeout was reached''" by simp
  note t = transport_failure_is_sentinel_and_skipped
      [of ?curl ?job "''Timeout was reached''" "''example.com''" email_regex
        "''https://t.example/''" "\<lparr>emails = [], subdomains = []\<rparr>" "[]" "[]", OF h]
  note r = t [THEN conjunct1]
  note f = t [THEN conjunct2, THEN conjunct2]
  from f r have "fold (scan_html ''example.com'' email_regex)
     [(''https://t.example/'', ''CURL_ERROR: Timeout was reached'')]
     \<lparr>emails = [], subdomains = []\<rparr> = \<lparr>emails = [], subdomains = []\<rparr>"
    by simp
  with r h show ?thesis by simp
qed

text \<open>
  Claim C7. In a body that is scanned, the matches of the email pattern that are
  appended to \<open>emails\<close> are, in their order, exactly the matches in whose text the domain
  occurs somewhere: the test is containment, at any place of the match.
\<close>

theorem email_kept_iff_contains_domain:
  assumes "\<not> sublist ''CURL_ERROR'' html"
  shows "emails (scan_html domain r (k, html) acc) =
           emails acc @
           filter (\<lambda>email. sublist domain email) (sregex_matches email_regex html)"
  by (simp add: scan_html_scan [OF assms])

text \<open>
  Three addresses: the one at the domain and the one that only holds the domain inside
  its host name are kept, the one at another domain is dropped.
\<close>

theorem email_kept_iff_contains_domain_witness:
  "\<not> sublist ''CURL_ERROR'' ''bob@example.com, eve@example.com.evil.org, al@other.org'' \<and>
   sregex_matches email_regex ''bob@example.com, eve@example.com.evil.org, al@other.org'' =
     [''bob@example.com'', ''eve@example.com.evil.org'', ''al@other.org''] \<and>
   emails (scan_html ''example.com'' []
             (''q'', ''bob@example.com, eve@example.com.evil.org, al@other.org'')
             \<lparr>emails = [], subdomains = []\<rparr>) =
     [''bob@example.com'', ''eve@example.com.evil.org'']"
proof -
  let ?html = "''bob@example.com, eve@example.com.evil.org, al@other.org''"
  have h: "\<not> sublist ''CURL_ERROR'' ?html"
    unfolding str_find_None_iff [symmetric] by simp
  have m: "sregex_matches email_regex ?html =
      [''bob@example.com'', ''eve@example.com.evil.org'', ''al@other.org'']"
    by (simp add: email_regex_def sregex_matches.simps Let_def)
  have f: "filter (\<lambda>email. sublist ''example.com'' email)
             [''bob@example.com'', ''eve@example.com.evil.org'', ''al@other.org''] =
           [''bob@example.com'', ''eve@example.com.evil.org'']"
    unfolding str_find_None_iff [symmetric, THEN arg_cong [of _ _ Not], simplified] by simp
  from email_kept_iff_contains_domain
    [OF h, of "''example.com''" "[]" "''q''" "\<lparr>emails = [], subdomains = []\<rparr>"]
  have "emails (scan_html ''example.com'' [] (''q'', ?html) \<lparr>emails = [], subdomains = []\<rparr>) =
        filter (\<lambda>email. sublist ''example.com'' email) (sregex_matches email_regex ?html)"
    by simp
  with h m f show ?thesis by simp
qed

text \<open>
  Claim C9. The loop body leaves the results as they are exactly when the text
  \<^verbatim>\<open>CURL_ERROR\<close> occurs somewhere in the body of the entry, and runs both scans
  otherwise. So a page that holds \<^verbatim>\<open>CURL_ERROR\<close> anywhere in its content is left out
  whole, while the result \<^verbatim>\<open>CURL_INIT_ERROR\<close> of a job whose handle could not be made does
  not hold that text and is scanned like a page (the email pattern finds nothing in it).
\<close>

theorem sentinel_test_is_substring_test:
  "(sublist ''CURL_ERROR'' html \<longrightarrow> scan_html domain r (k, html) acc = acc) \<and>
   (\<not> sublist ''CURL_ERROR'' html \<longrightarrow>
      scan_html domain r (k, html) acc =
        \<lparr>emails = emails acc @
            filter (\<lambda>email. sublist domain email) (sregex_matches email_regex html),
         subdomains = subdomains acc @ sregex_matches r html\<rparr>) \<and>
   scan_html domain r (k, page @ ''CURL_ERROR'' @ page') acc = acc \<and>
   result_html (scrape_url (\<lambda>u. Init_failed) job) = ''CURL_INIT_ERROR'' \<and>
   \<not> sublist ''CURL_ERROR'' ''CURL_INIT_ERROR'' \<and>
   scan_html domain r (k, ''CURL_INIT_ERROR'') acc =
     \<lparr>emails = emails acc, subdomains = subdomains acc @ sregex_matches r ''CURL_INIT_ERROR''\<rparr>"
proof (intro conjI impI)
  show "scan_html domain r (k, page @ ''CURL_ERROR'' @ page') acc = acc"
    by (rule scan_html_skip) (auto simp: sublist_def)
  show "result_html (scrape_url (\<lambda>u. Init_failed) job) = ''CURL_INIT_ERROR''"
    by (simp add: scrape_url_def)
  show init: "\<not> sublist ''CURL_ERROR'' ''CURL_INIT_ERROR''"
    unfolding str_find_None_iff [symmetric] by simp
  have "sregex_matches email_regex ''CURL_INIT_ERROR'' = []"
    by (simp add: email_regex_def sregex_matches.simps Let_def)
  with scan_html_scan [OF init, of domain r k acc]
  show "scan_html domain r (k, ''CURL_INIT_ERROR'') acc =
     \<lparr>emails = emails acc, subdomains = subdomains acc @ sregex_matches r ''CURL_INIT_ERROR''\<rparr>"
    by simp
qed (simp_all add: scan_html_skip scan_html_scan)

text \<open>
  A fetched page with an address of the domain: with \<^verbatim>\<open>CURL_ERROR\<close> in its text nothing
  is harvested from it, without that text the address is.
\<close>

theorem sentinel_test_is_substring_test_witness:
  "sublist ''CURL_ERROR'' ''mail bob@example.com (CURL_ERROR 7)'' \<and>
   scan_html ''example.com'' email_regex (''q'', ''mail bob@example.com (CURL_ERROR 7)'')
       \<lparr>emails = [], subdomains = []\<rparr>
     = \<lparr>emails = [], subdomains = []\<rparr> \<and>
   \<not> sublist ''CURL_ERROR'' ''mail bob@example.com'' \<and>
   scan_html ''example.com'' email_regex (''q'', ''mail bob@example.com'')
       \<lparr>emails = [], subdomains = []\<rparr>
     = \<lparr>emails = [''bob@example.com''], subdomains = [''bob@example.com'']\<rparr>"
proof -
  note t = sentinel_test_is_substring_test
    [of _ "''example.com''" email_regex "''q''" "\<lparr>emails = [], subdomains = []\<rparr>"]
  have 1: "sublist ''CURL_ERROR'' ''mail bob@example.com (CURL_ERROR 7)''"
    using str_find_None_iff [of "''mail bob@example.com (CURL_ERROR 7)''" "''CURL_ERROR''"] by simp
  have 2: "\<not> sublist ''CURL_ERROR'' ''mail bob@example.com''"
    unfolding str_find_None_iff [symmetric] by simp
  have m: "sregex_matches email_regex ''mail bob@example.com'' = [''bob@example.com'']"
    by (simp add: email_regex_def sregex_matches.simps Let_def)
  have c: "sublist ''example.com'' ''bob@example.com''"
    using str_find_None_iff [of "''bob@example.com''" "''example.com''"] by simp
  from t [THEN conjunct1, rule_format, OF 1]
  have a: "scan_html ''example.com'' email_regex (''q'', ''mail bob@example.com (CURL_ERROR 7)'')
       \<lparr>emails = [], subdomains = []\<rparr> = \<lparr>emails = [], subdomains = []\<rparr>" .
  from t [THEN conjunct2, THEN conjunct1, rule_format, OF 2] m c
  have b: "scan_html ''example.com'' email_regex (''q'', ''mail bob@example.com'')
       \<lparr>emails = [], subdomains = []\<rparr>
     = \<lparr>emails = [''bob@example.com''], subdomains = [''bob@example.com'']\<rparr>"
    by simp
  from 1 a 2 b show ?thesis by blast
qed

text \<open>
  Claim C5 says that every string appended to \<open>subdomains\<close> is label characters, a dot
  and then the target domain. The domain is put into the pattern without escaping, so
  the dot of \<^verbatim>\<open>example.com\<close> matches any character: from a page that holds
  \<^verbatim>\<open>www.exampleXcom\<close> that text is appended (once per query), and it does not end with
  \<^verbatim>\<open>.example.com\<close>. The filter of the emails, two lines earlier in the same loop,
  takes the domain as plain text.
\<close>

theorem subdomain_pattern_dot_is_wildcard:
  "parallel_harvester (\<lambda>i u. Perform_ok ''see www.exampleXcom'') ''example.com'' =
     Some \<lparr>emails = [],
           subdomains = [''www.exampleXcom'', ''www.exampleXcom'', ''www.exampleXcom'']\<rparr> \<and>
   \<not> suffix ''.example.com'' ''www.exampleXcom''"
  by (simp add: parallel_harvester_def parallel_scrape_def parallel_for_each_def urls_to_scrape_def
      dorks_def scrape_url_def subdomain_regex_def pattern_char_def scan_html_def email_regex_def
      sregex_matches.simps Let_def suffix_def)

text \<open>
  The queries are put into the URLs as they are. Whatever the domain, the first URL
  holds the space and the double quotes of its query and the second the double quotes
  of its query, and these are no characters of a URI.
\<close>

lemma harvest_urls_never_encoded:
  "\<not> url_encoded (urls_to_scrape domain ! 0) \<and> \<not> url_encoded (urls_to_scrape domain ! 1)"
  by (simp add: url_encoded_def uri_char_def urls_to_scrape_def dorks_def)

text \<open>
  Claim C4 says that harvest builds three queries for the domain and URL-encodes each
  into one search-engine URL with a fixed result count. The code builds the three
  queries and the three URLs, but appends every query as it is: for \<^verbatim>\<open>example.com\<close>
  the first of the URLs handed to the fetch is the text below, with a space and two
  double quotes in it, so it is not URL-encoded.
\<close>

theorem harvest_urls_not_encoded:
  "length (urls_to_scrape ''example.com'') = 3 \<and>
   urls_to_scrape ''example.com'' ! 0 =
     ''https://www.google.com/search?q=site:google.com '' @ [CHR 0x22] @ ''@example.com'' @
       [CHR 0x22] @ ''&num=50'' \<and>
   CHR '' '' \<in> set (urls_to_scrape ''example.com'' ! 0) \<and>
   CHR 0x22 \<in> set (urls_to_scrape ''example.com'' ! 0) \<and>
   \<not> url_encoded (urls_to_scrape ''example.com'' ! 0)"
  by (simp add: url_encoded_def uri_char_def urls_to_scrape_def dorks_def)

end
